theory Spec2Isabelle
  imports Main "HOL-Library.AList" "HOL-Library.Sublist"
begin

section \<open>Schema dependency validator (validate\_dependencies.py)\<close>

text \<open>
  The script reads a schema text, collects the tables introduced by
  \<^verbatim>\<open>CREATE TABLE IF NOT EXISTS\<close> lines together with the tables named by the
  \<^verbatim>\<open>FOREIGN KEY ... REFERENCES\<close> lines that follow them
  (\<^verbatim>\<open>extract_table_definitions\<close>), and then reports references to unknown tables and
  to tables that are created later (\<^verbatim>\<open>validate_dependencies\<close>).

  A document is a \<^typ>\<open>string\<close>: a list of characters with code points 0 to 255. The
  character classes below are those of Python's \<^verbatim>\<open>str.strip\<close> and of \<^verbatim>\<open>\w\<close> in a
  \<^verbatim>\<open>str\<close> pattern on that range; text with code points beyond 255 is outside the model.
\<close>

subsection \<open>Characters\<close>

definition is_space :: "char \<Rightarrow> bool" where
  "is_space c = (let n = (of_char c :: nat) in
     (9 \<le> n \<and> n \<le> 13) \<or> (28 \<le> n \<and> n \<le> 32) \<or> n = 133 \<or> n = 160)"

definition is_word :: "char \<Rightarrow> bool" where
  "is_word c = (let n = (of_char c :: nat) in
     (48 \<le> n \<and> n \<le> 57) \<or> (65 \<le> n \<and> n \<le> 90) \<or> n = 95 \<or> (97 \<le> n \<and> n \<le> 122) \<or>
     n = 170 \<or> n = 178 \<or> n = 179 \<or> n = 181 \<or> n = 185 \<or> n = 186 \<or>
     (188 \<le> n \<and> n \<le> 190) \<or> (192 \<le> n \<and> n \<le> 214) \<or> (216 \<le> n \<and> n \<le> 246) \<or>
     (248 \<le> n \<and> n \<le> 255))"

text \<open>
  \<^verbatim>\<open>re.IGNORECASE\<close>: a character of the text matches a character of the pattern when both
  have the same lower-case form. The patterns of the script consist of ASCII letters, spaces
  and parentheses, and below code point 256 only \<^verbatim>\<open>A\<close> to \<^verbatim>\<open>Z\<close> have an ASCII letter as
  their lower-case form.
\<close>

definition lower :: "char \<Rightarrow> char" where
  "lower c = (let n = (of_char c :: nat) in
     if 65 \<le> n \<and> n \<le> 90 then char_of (n + 32) else c)"

subsection \<open>Strings: strip, split, index\<close>

definition strip :: "string \<Rightarrow> string" where
  "strip s = rev (dropWhile is_space (rev (dropWhile is_space s)))"

text \<open>\<^verbatim>\<open>s.split('\n')\<close>: the pieces between line feeds; the empty text gives one empty piece.\<close>

fun split_newline :: "string \<Rightarrow> string list" where
  "split_newline [] = [[]]"
| "split_newline (c # cs) =
     (if c = CHR 0x0A then [] # split_newline cs
      else (case split_newline cs of
              [] \<Rightarrow> [[c]]
            | l # ls \<Rightarrow> (c # l) # ls))"

text \<open>\<^verbatim>\<open>xs.index(x)\<close>: the first index holding \<open>x\<close>; \<open>None\<close> where Python raises ValueError.\<close>

fun list_index :: "'a list \<Rightarrow> 'a \<Rightarrow> nat option" where
  "list_index [] x = None"
| "list_index (y # ys) x =
     (if y = x then Some 0
      else (case list_index ys x of None \<Rightarrow> None | Some i \<Rightarrow> Some (Suc i)))"

subsection \<open>The two regular expressions\<close>

text \<open>
  A literal piece of a pattern, matched case-insensitively at the start of the text; the
  result is the rest of the text.
\<close>

fun match_literal :: "string \<Rightarrow> string \<Rightarrow> string option" where
  "match_literal [] s = Some s"
| "match_literal (p # ps) [] = None"
| "match_literal (p # ps) (c # cs) =
     (if lower c = lower p then match_literal ps cs else None)"

text \<open>
  \<^verbatim>\<open>CREATE TABLE IF NOT EXISTS (\w+)\<close> matched at the start of the text. The group is
  greedy and nothing follows it, so it is the longest run of word characters.
\<close>

definition create_table_at :: "string \<Rightarrow> string option" where
  "create_table_at s =
     (case match_literal ''CREATE TABLE IF NOT EXISTS '' s of
        None \<Rightarrow> None
      | Some rest \<Rightarrow>
          (let name = takeWhile is_word rest in
           if name = [] then None else Some name))"

text \<open>
  \<^verbatim>\<open>FOREIGN KEY \([^)]+\) REFERENCES (\w+)\(\<close> matched at the start of the text. The
  column list \<^verbatim>\<open>[^)]+\<close> has to be followed by a closing parenthesis, which it cannot
  contain, so it is the non-empty run up to the first closing parenthesis; the group has to
  be followed by an opening parenthesis, which is no word character, so it is the longest
  run of word characters.
\<close>

definition foreign_key_at :: "string \<Rightarrow> string option" where
  "foreign_key_at s =
     (case match_literal ''FOREIGN KEY ('' s of
        None \<Rightarrow> None
      | Some r1 \<Rightarrow>
          (let cols = takeWhile (\<lambda>c. c \<noteq> CHR 0x29) r1;
               r2 = dropWhile (\<lambda>c. c \<noteq> CHR 0x29) r1
           in if cols = [] then None
              else (case match_literal '') REFERENCES '' r2 of
                      None \<Rightarrow> None
                    | Some r3 \<Rightarrow>
                        (let name = takeWhile is_word r3;
                             r4 = dropWhile is_word r3
                         in if name = [] then None
                            else (case r4 of
                                    [] \<Rightarrow> None
                                  | c # _ \<Rightarrow> if c = CHR 0x28 then Some name else None)))))"

text \<open>\<^verbatim>\<open>re.search\<close>: the match at the leftmost position of the text that has one.\<close>

fun search :: "(string \<Rightarrow> 'a option) \<Rightarrow> string \<Rightarrow> 'a option" where
  "search m [] = m []"
| "search m (c # cs) =
     (case m (c # cs) of Some g \<Rightarrow> Some g | None \<Rightarrow> search m cs)"

definition create_match :: "string \<Rightarrow> string option" where
  "create_match line = search create_table_at line"

definition fk_match :: "string \<Rightarrow> string option" where
  "fk_match line = search foreign_key_at line"

subsection \<open>The dictionary of tables\<close>

datatype error = ValueError | KeyError

record table_info =
  dependencies :: "string list"
  line_num :: nat

text \<open>
  A Python \<^verbatim>\<open>dict\<close> keeps its keys in insertion order: an association list. Assigning
  to a key that is present replaces the value where it stands; assigning to a new key adds
  the entry at the end.
\<close>

type_synonym table_dict = "(string \<times> table_info) list"

fun dict_set :: "table_dict \<Rightarrow> string \<Rightarrow> table_info \<Rightarrow> table_dict" where
  "dict_set [] k v = [(k, v)]"
| "dict_set ((k', v') # rest) k v =
     (if k' = k then (k, v) # rest else (k', v') # dict_set rest k v)"

definition dict_get :: "table_dict \<Rightarrow> string \<Rightarrow> table_info option" where
  "dict_get tbls k = map_of tbls k"

definition dict_keys :: "table_dict \<Rightarrow> string list" where
  "dict_keys tbls = map fst tbls"

definition dict_contains :: "table_dict \<Rightarrow> string \<Rightarrow> bool" where
  "dict_contains tbls k = (k \<in> set (dict_keys tbls))"

subsection \<open>extract\_table\_definitions\<close>

text \<open>
  The state of the scan is the dictionary and \<^verbatim>\<open>current_table\<close> (\<open>None\<close> before the
  first declaration; a matched name is never empty, so the test \<^verbatim>\<open>if current_table\<close> is
  the test for \<open>Some\<close>). \<open>all_lines\<close> is the list \<^verbatim>\<open>lines\<close> of the source, which
  \<^verbatim>\<open>lines.index(line)\<close> searches for the stripped line.
\<close>

type_synonym extract_state = "table_dict \<times> string option"

definition count_nonblank :: "string list \<Rightarrow> nat" where
  "count_nonblank ls = length (filter (\<lambda>l. strip l \<noteq> []) ls)"

definition extract_line ::
  "string list \<Rightarrow> string \<Rightarrow> extract_state \<Rightarrow> error + extract_state" where
  "extract_line all_lines raw st =
     (let line = strip raw; tbls = fst st; current_table = snd st in
      case create_match line of
        Some name \<Rightarrow>
          (case list_index all_lines line of
             None \<Rightarrow> Inl ValueError
           | Some idx \<Rightarrow>
               Inr (dict_set tbls name
                      \<lparr>dependencies = [], line_num = count_nonblank (take idx all_lines)\<rparr>,
                    Some name))
      | None \<Rightarrow>
          (case current_table of
             None \<Rightarrow> Inr st
           | Some cur \<Rightarrow>
               (case fk_match line of
                  None \<Rightarrow> Inr st
                | Some referenced_table \<Rightarrow>
                    if referenced_table \<noteq> cur then
                      (case dict_get tbls cur of
                         None \<Rightarrow> Inl KeyError
                       | Some info \<Rightarrow>
                           Inr (dict_set tbls cur
                                  (info\<lparr>dependencies := dependencies info @ [referenced_table]\<rparr>),
                                Some cur))
                    else Inr st)))"

fun extract_loop ::
  "string list \<Rightarrow> string list \<Rightarrow> extract_state \<Rightarrow> error + extract_state" where
  "extract_loop all_lines [] st = Inr st"
| "extract_loop all_lines (raw # rest) st =
     (case extract_line all_lines raw st of
        Inl e \<Rightarrow> Inl e
      | Inr st' \<Rightarrow> extract_loop all_lines rest st')"

definition extract_table_definitions :: "string \<Rightarrow> error + table_dict" where
  "extract_table_definitions sql_content =
     (let all_lines = split_newline sql_content in
      case extract_loop all_lines all_lines ([], None) of
        Inl e \<Rightarrow> Inl e
      | Inr st \<Rightarrow> Inr (fst st))"

subsection \<open>validate\_dependencies\<close>

text \<open>
  The script reports each problem as a line of text. A violation holds the values put into
  that line: \<^verbatim>\<open>Table 'd' references undefined table 'r'\<close> is
  \<open>UndeclaredReference d r\<close>, and \<^verbatim>\<open>Dependency error: Table 'd' (position p)
  references table 'r' (position q) which is defined later\<close> is \<open>ForwardReference d p r q\<close>,
  with the positions as printed (\<^verbatim>\<open>i+1\<close> and \<^verbatim>\<open>dependency_index+1\<close>).
  \<open>DuplicateDeclaration\<close> is the third kind of the data model; no statement of the script
  builds one.
\<close>

datatype violation =
    UndeclaredReference string string
  | ForwardReference string int string int
  | DuplicateDeclaration string

text \<open>
  \<^verbatim>\<open>errors\<close> is the list the function appends to; \<^verbatim>\<open>tables\<close> is the dictionary
  of the caller, which the function could change. Both are threaded through the loops.
\<close>

record validate_state =
  errors :: "violation list"
  tables :: table_dict

fun dependencies_loop ::
  "string list \<Rightarrow> nat \<Rightarrow> string \<Rightarrow> string list \<Rightarrow> validate_state \<Rightarrow> validate_state" where
  "dependencies_loop table_order i table_name [] st = st"
| "dependencies_loop table_order i table_name (dependency # rest) st =
     (if \<not> dict_contains (tables st) dependency then
        dependencies_loop table_order i table_name rest
          (st\<lparr>errors := errors st @ [UndeclaredReference table_name dependency]\<rparr>)
      else
        (let dependency_index =
               (case list_index table_order dependency of
                  Some j \<Rightarrow> int j
                | None \<Rightarrow> - 1)
         in if dependency_index > int i then
              dependencies_loop table_order i table_name rest
                (st\<lparr>errors := errors st @
                   [ForwardReference table_name (int i + 1) dependency (dependency_index + 1)]\<rparr>)
            else dependencies_loop table_order i table_name rest st))"

fun tables_loop ::
  "string list \<Rightarrow> (nat \<times> string) list \<Rightarrow> validate_state \<Rightarrow> error + validate_state" where
  "tables_loop table_order [] st = Inr st"
| "tables_loop table_order ((i, table_name) # rest) st =
     (case dict_get (tables st) table_name of
        None \<Rightarrow> Inl KeyError
      | Some info \<Rightarrow>
          tables_loop table_order rest
            (dependencies_loop table_order i table_name (dependencies info) st))"

definition validate_run :: "table_dict \<Rightarrow> error + validate_state" where
  "validate_run tbls =
     (let table_order = dict_keys tbls in
      tables_loop table_order (enumerate 0 table_order) \<lparr>errors = [], tables = tbls\<rparr>)"

definition validate_dependencies :: "table_dict \<Rightarrow> error + violation list" where
  "validate_dependencies tbls =
     (case validate_run tbls of
        Inl e \<Rightarrow> Inl e
      | Inr st \<Rightarrow> Inr (errors st))"

text \<open>The two steps of \<^verbatim>\<open>main\<close>: extract, then validate.\<close>

definition check_document :: "string \<Rightarrow> error + violation list" where
  "check_document sql_content =
     (case extract_table_definitions sql_content of
        Inl e \<Rightarrow> Inl e
      | Inr tbls \<Rightarrow> validate_dependencies tbls)"

section \<open>Notions used to state the properties\<close>

subsection \<open>Violations\<close>

fun subject :: "violation \<Rightarrow> string" where
  "subject (UndeclaredReference d r) = d"
| "subject (ForwardReference d p r q) = d"
| "subject (DuplicateDeclaration d) = d"

text \<open>The table a reference-kind violation points to; a duplicate declaration has none.\<close>

fun target :: "violation \<Rightarrow> string option" where
  "target (UndeclaredReference d r) = Some r"
| "target (ForwardReference d p r q) = Some r"
| "target (DuplicateDeclaration d) = None"

text \<open>
  What one dependency \<open>r\<close> of the table \<open>d\<close> at index \<open>i\<close> of the key order gives: an
  undeclared reference when \<open>r\<close> is no key, a forward reference when the index of \<open>r\<close> is
  greater than \<open>i\<close>, nothing otherwise.
\<close>

definition reference_violations :: "table_dict \<Rightarrow> nat \<Rightarrow> string \<Rightarrow> string \<Rightarrow> violation list" where
  "reference_violations tbls i d r =
     (case list_index (dict_keys tbls) r of
        None \<Rightarrow> [UndeclaredReference d r]
      | Some j \<Rightarrow> if i < j then [ForwardReference d (int i + 1) r (int j + 1)] else [])"

definition declaration_violations ::
  "table_dict \<Rightarrow> nat \<Rightarrow> string \<Rightarrow> string list \<Rightarrow> violation list" where
  "declaration_violations tbls i d deps = concat (map (reference_violations tbls i d) deps)"

text \<open>
  The complete report: the entries of the dictionary in key order, and for each entry its
  dependencies in list order.
\<close>

definition expected_violations :: "table_dict \<Rightarrow> violation list" where
  "expected_violations tbls =
     concat (map (\<lambda>(i, (d, info)). declaration_violations tbls i d (dependencies info))
                 (enumerate 0 tbls))"

definition lookup_violations :: "table_dict \<Rightarrow> nat \<times> string \<Rightarrow> violation list" where
  "lookup_violations tbls p =
     (case map_of tbls (snd p) of
        None \<Rightarrow> []
      | Some info \<Rightarrow> declaration_violations tbls (fst p) (snd p) (dependencies info))"

text \<open>A dependency \<open>r\<close> of the table at index \<open>i\<close> is reported: no key, or a later key.\<close>

definition reported :: "table_dict \<Rightarrow> nat \<Rightarrow> string \<Rightarrow> bool" where
  "reported tbls i r =
     (case list_index (dict_keys tbls) r of
        None \<Rightarrow> True
      | Some j \<Rightarrow> i < j)"

text \<open>The index of a violation's subject in a list of keys (the length when it is no key).\<close>

definition subject_index :: "string list \<Rightarrow> violation \<Rightarrow> nat" where
  "subject_index ks v =
     (case list_index ks (subject v) of
        None \<Rightarrow> length ks
      | Some i \<Rightarrow> i)"

subsection \<open>Declarations and dependency lines of a document\<close>

text \<open>The names declared by the lines of a document, in document order, with repetitions.\<close>

fun declared_names :: "string list \<Rightarrow> string list" where
  "declared_names [] = []"
| "declared_names (l # ls) =
     (case create_match (strip l) of
        None \<Rightarrow> declared_names ls
      | Some m \<Rightarrow> m # declared_names ls)"

text \<open>Each element once, at the place of its first occurrence.\<close>

fun first_appearances :: "'a list \<Rightarrow> 'a list" where
  "first_appearances [] = []"
| "first_appearances (x # xs) = x # filter (\<lambda>y. y \<noteq> x) (first_appearances xs)"

definition add_key :: "string \<Rightarrow> string list \<Rightarrow> string list" where
  "add_key m ks = (if m \<in> set ks then ks else ks @ [m])"

text \<open>
  The span of a declaration of \<open>d\<close> is the run of lines after it, up to the next
  declaration line. \<open>span_dependencies d ls\<close> are the names referenced by the dependency
  lines of the span that starts \<open>ls\<close>, other than \<open>d\<close> itself, one entry for each such line.
\<close>

fun span_dependencies :: "string \<Rightarrow> string list \<Rightarrow> string list" where
  "span_dependencies d [] = []"
| "span_dependencies d (l # ls) =
     (case create_match (strip l) of
        Some _ \<Rightarrow> []
      | None \<Rightarrow>
          (case fk_match (strip l) of
             None \<Rightarrow> span_dependencies d ls
           | Some r \<Rightarrow> if r \<noteq> d then r # span_dependencies d ls else span_dependencies d ls))"

text \<open>The lines after the last declaration of \<open>d\<close>; \<open>None\<close> when no line declares \<open>d\<close>.\<close>

fun last_span :: "string \<Rightarrow> string list \<Rightarrow> string list option" where
  "last_span d [] = None"
| "last_span d (l # ls) =
     (case last_span d ls of
        Some s \<Rightarrow> Some s
      | None \<Rightarrow> if create_match (strip l) = Some d then Some ls else None)"

text \<open>The scan's invariant: \<^verbatim>\<open>current_table\<close>, once set, is a key of the dictionary.\<close>

definition current_declared :: "extract_state \<Rightarrow> bool" where
  "current_declared st =
     (case snd st of
        None \<Rightarrow> True
      | Some c \<Rightarrow> c \<in> set (dict_keys (fst st)))"

subsection \<open>Example documents and dictionaries\<close>

definition join_lines :: "string list \<Rightarrow> string" where
  "join_lines ls = concat (case ls of [] \<Rightarrow> [] | l # rest \<Rightarrow> l # map (\<lambda>x. CHR 0x0A # x) rest)"

text \<open>\<^verbatim>\<open>employees\<close> refers to \<^verbatim>\<open>roles\<close>, which is declared after it.\<close>

definition forward_document :: string where
  "forward_document = join_lines
     [''CREATE TABLE IF NOT EXISTS employees ('',
      ''  role_id INT,'',
      ''  FOREIGN KEY (role_id) REFERENCES roles(id)'',
      '');'',
      ''CREATE TABLE IF NOT EXISTS roles ('',
      ''  id INT'',
      '');'']"

definition forward_tables :: table_dict where
  "forward_tables =
     [(''employees'', \<lparr>dependencies = [''roles''], line_num = 0\<rparr>),
      (''roles'', \<lparr>dependencies = [], line_num = 4\<rparr>)]"

text \<open>Two tables that refer to tables declared nowhere, and to each other.\<close>

definition undeclared_tables :: table_dict where
  "undeclared_tables =
     [(''orders'', \<lparr>dependencies = [''customers'', ''payments''], line_num = 0\<rparr>),
      (''payments'', \<lparr>dependencies = [''orders'', ''banks''], line_num = 5\<rparr>)]"

text \<open>\<^verbatim>\<open>products\<close> is declared twice; only the first declaration has a dependency line.\<close>

definition duplicate_document :: string where
  "duplicate_document = join_lines
     [''CREATE TABLE IF NOT EXISTS products ('',
      ''FOREIGN KEY (category_id) REFERENCES categories(id)'',
      '');'',
      ''CREATE TABLE IF NOT EXISTS products ('',
      '');'']"

text \<open>Two dependency lines of one table name the same table.\<close>

definition repeated_document :: string where
  "repeated_document = join_lines
     [''CREATE TABLE IF NOT EXISTS orders ('',
      ''FOREIGN KEY (buyer_id) REFERENCES customers(id),'',
      ''FOREIGN KEY (payer_id) REFERENCES customers(id)'',
      '');'']"

text \<open>A table that refers to itself and to another table.\<close>

definition self_document :: string where
  "self_document = join_lines
     [''CREATE TABLE IF NOT EXISTS categories ('',
      ''FOREIGN KEY (parent_id) REFERENCES categories(id),'',
      ''FOREIGN KEY (owner_id) REFERENCES owners(id)'',
      '');'']"

text \<open>A dependency line stands before the first declaration.\<close>

definition early_document :: string where
  "early_document = join_lines
     [''FOREIGN KEY (x) REFERENCES ghosts(id)'',
      ''CREATE TABLE IF NOT EXISTS items ('',
      ''FOREIGN KEY (shop_id) REFERENCES shops(id)'',
      '');'']"

text \<open>No line declares a table.\<close>

definition plain_document :: string where
  "plain_document = join_lines
     [''-- schema'',
      ''FOREIGN KEY (x) REFERENCES ghosts(id)'',
      ''CREATE INDEX idx ON items (id);'']"

section \<open>Lemmas\<close>

subsection \<open>Index of an element\<close>

lemma list_index_None_iff: "list_index xs x = None \<longleftrightarrow> x \<notin> set xs"
  by (induction xs) (auto split: option.splits)

lemma list_index_Some_iff:
  "list_index xs x = Some i \<longleftrightarrow> i < length xs \<and> xs ! i = x \<and> x \<notin> set (take i xs)"
proof (induction xs arbitrary: i)
  case Nil
  then show ?case by simp
next
  case (Cons y ys)
  show ?case
  proof (cases i)
    case 0
    then show ?thesis by (simp split: option.splits)
  next
    case (Suc n)
    show ?thesis
    proof (cases "list_index ys x")
      case None
      with Cons.IH [of n] show ?thesis using Suc by auto
    next
      case (Some j)
      with Cons.IH [of n] show ?thesis using Suc by auto
    qed
  qed
qed

lemma list_index_distinct:
  "distinct xs \<Longrightarrow> i < length xs \<Longrightarrow> list_index xs (xs ! i) = Some i"
  unfolding list_index_Some_iff
  by (simp add: in_set_conv_nth distinct_conv_nth)

subsection \<open>The loops of the validator\<close>

lemma dependencies_loop_eq:
  "dependencies_loop (dict_keys (tables st)) i d deps st =
     st\<lparr>errors := errors st @ declaration_violations (tables st) i d deps\<rparr>"
proof (induction deps arbitrary: st)
  case Nil
  then show ?case by (simp add: declaration_violations_def)
next
  case (Cons r deps)
  show ?case
  proof (cases "list_index (dict_keys (tables st)) r")
    case None
    then have "\<not> dict_contains (tables st) r"
      by (simp add: dict_contains_def list_index_None_iff)
    then show ?thesis
      using None Cons.IH [of "st\<lparr>errors := errors st @ [UndeclaredReference d r]\<rparr>"]
      by (simp add: declaration_violations_def reference_violations_def)
  next
    case (Some j)
    then have "dict_contains (tables st) r"
      using list_index_None_iff [of "dict_keys (tables st)" r] by (simp add: dict_contains_def)
    then show ?thesis
      using Some Cons.IH [of st]
        Cons.IH [of "st\<lparr>errors := errors st @ [ForwardReference d (int i + 1) r (int j + 1)]\<rparr>"]
      by (simp add: declaration_violations_def reference_violations_def)
  qed
qed

lemma tables_loop_eq:
  "snd ` set iks \<subseteq> set (dict_keys (tables st)) \<Longrightarrow>
   tables_loop (dict_keys (tables st)) iks st =
     Inr (st\<lparr>errors := errors st @ concat (map (lookup_violations (tables st)) iks)\<rparr>)"
proof (induction iks arbitrary: st)
  case Nil
  then show ?case by simp
next
  case (Cons p iks)
  obtain i k where p: "p = (i, k)" by (cases p)
  from Cons.prems p have "k \<in> fst ` set (tables st)" by (simp add: dict_keys_def)
  then obtain info where info: "map_of (tables st) k = Some info"
    by (metis domD dom_map_of_conv_image_fst)
  let ?st = "st\<lparr>errors := errors st @ declaration_violations (tables st) i k (dependencies info)\<rparr>"
  have tbl: "tables ?st = tables st" by simp
  have step: "tables_loop (dict_keys (tables st)) (p # iks) st =
              tables_loop (dict_keys (tables st)) iks ?st"
    unfolding p tables_loop.simps dict_get_def info option.case dependencies_loop_eq ..
  have "snd ` set iks \<subseteq> set (dict_keys (tables ?st))" using Cons.prems by simp
  from Cons.IH [OF this]
  have "tables_loop (dict_keys (tables st)) iks ?st =
        Inr (?st\<lparr>errors := errors ?st @ concat (map (lookup_violations (tables st)) iks)\<rparr>)"
    unfolding tbl .
  moreover have "lookup_violations (tables st) p =
                 declaration_violations (tables st) i k (dependencies info)"
    by (simp add: lookup_violations_def p info)
  ultimately show ?case unfolding step by simp
qed

lemma validate_run_lookup:
  "validate_run tbls =
     Inr \<lparr>errors = concat (map (lookup_violations tbls) (enumerate 0 (dict_keys tbls))),
          tables = tbls\<rparr>"
proof -
  let ?st = "\<lparr>errors = [], tables = tbls\<rparr>"
  have "snd ` set (enumerate 0 (dict_keys tbls)) \<subseteq> set (dict_keys (tables ?st))"
    by (auto simp: in_set_enumerate_eq)
  from tables_loop_eq [OF this] show ?thesis
    by (simp add: validate_run_def)
qed

lemma enumerate_keys:
  "enumerate n (map fst tbls) = map (\<lambda>(i, (k, v)). (i, k)) (enumerate n tbls)"
  by (induction tbls arbitrary: n) auto

lemma validate_run_expected:
  assumes "distinct (dict_keys tbls)"
  shows "validate_run tbls = Inr \<lparr>errors = expected_violations tbls, tables = tbls\<rparr>"
proof -
  have "map (lookup_violations tbls) (enumerate 0 (dict_keys tbls)) =
        map (\<lambda>(i, (d, info)). declaration_violations tbls i d (dependencies info)) (enumerate 0 tbls)"
    unfolding dict_keys_def enumerate_keys map_map
  proof (rule map_cong [OF refl])
    fix x assume x: "x \<in> set (enumerate 0 tbls)"
    obtain i d info where xe: "x = (i, (d, info))" by (cases x) auto
    with x have "(d, info) \<in> set tbls" by (auto simp: in_set_enumerate_eq dest: nth_mem)
    with assms have "map_of tbls d = Some info" by (simp add: dict_keys_def)
    then show "(lookup_violations tbls \<circ> (\<lambda>(i, (k, v)). (i, k))) x =
               (case x of (i, (d, info)) \<Rightarrow> declaration_violations tbls i d (dependencies info))"
      by (simp add: xe lookup_violations_def)
  qed
  then show ?thesis by (simp add: validate_run_lookup expected_violations_def)
qed

subsection \<open>The dictionary and its key order\<close>

lemma dict_set_update: "dict_set tbls k v = AList.update k v tbls"
  by (induction tbls) auto

lemma dict_keys_set:
  "dict_keys (dict_set tbls k v) =
     (if k \<in> set (dict_keys tbls) then dict_keys tbls else dict_keys tbls @ [k])"
  by (simp add: dict_set_update dict_keys_def update_keys)

lemma dict_get_set:
  "dict_get (dict_set tbls k v) k' = (if k' = k then Some v else dict_get tbls k')"
  by (simp add: dict_set_update dict_get_def update_conv')

lemma dict_get_Some_key: "dict_get tbls k = Some v \<Longrightarrow> k \<in> set (dict_keys tbls)"
  unfolding dict_get_def dict_keys_def by (force dest: map_of_SomeD)

lemma distinct_dict_set: "distinct (dict_keys tbls) \<Longrightarrow> distinct (dict_keys (dict_set tbls k v))"
  by (simp add: dict_keys_set)

lemma keys_first_appearances:
  "fold add_key ms ks =
     ks @ filter (\<lambda>m. m \<notin> set ks) (first_appearances ms)"
proof (induction ms arbitrary: ks)
  case Nil
  then show ?case by simp
next
  case (Cons m ms)
  have step: "fold add_key (m # ms) ks = fold add_key ms (add_key m ks)" by simp
  show ?case
  proof (cases "m \<in> set ks")
    case True
    then have "add_key m ks = ks" by (simp add: add_key_def)
    moreover have "filter (\<lambda>y. y \<notin> set ks) (filter (\<lambda>y. y \<noteq> m) (first_appearances ms)) =
               filter (\<lambda>y. y \<notin> set ks) (first_appearances ms)"
      using True by (auto intro: filter_cong)
    ultimately show ?thesis unfolding step using True by (simp add: Cons.IH)
  next
    case False
    then have "add_key m ks = ks @ [m]" by (simp add: add_key_def)
    moreover have "filter (\<lambda>y. y \<notin> set (ks @ [m])) (first_appearances ms) =
          filter (\<lambda>y. y \<notin> set ks) (filter (\<lambda>y. y \<noteq> m) (first_appearances ms))"
      by (auto intro: filter_cong)
    ultimately show ?thesis unfolding step using False by (simp add: Cons.IH)
  qed
qed

lemma distinct_first_appearances: "distinct (first_appearances xs)"
  by (induction xs) auto

lemma set_first_appearances: "set (first_appearances xs) = set xs"
  by (induction xs) auto

subsection \<open>The scan\<close>

text \<open>One line of the scan, case by case.\<close>

lemma extract_line_create:
  assumes "create_match (strip raw) = Some name"
  shows "extract_line all_lines raw (tbls, cur) =
     (case list_index all_lines (strip raw) of
        None \<Rightarrow> Inl ValueError
      | Some idx \<Rightarrow>
          Inr (dict_set tbls name
                 \<lparr>dependencies = [], line_num = count_nonblank (take idx all_lines)\<rparr>,
               Some name))"
  using assms by (simp add: extract_line_def)

lemma extract_line_other:
  assumes "create_match (strip raw) = None"
  shows "extract_line all_lines raw (tbls, cur) =
     (case cur of
        None \<Rightarrow> Inr (tbls, cur)
      | Some c \<Rightarrow>
          (case fk_match (strip raw) of
             None \<Rightarrow> Inr (tbls, cur)
           | Some r \<Rightarrow>
               if r \<noteq> c then
                 (case dict_get tbls c of
                    None \<Rightarrow> Inl KeyError
                  | Some info \<Rightarrow>
                      Inr (dict_set tbls c (info\<lparr>dependencies := dependencies info @ [r]\<rparr>), cur))
               else Inr (tbls, cur)))"
  using assms by (simp add: extract_line_def split: option.splits)

lemma extract_loop_Cons_Inr:
  assumes "extract_loop all_lines (raw # rest) st = Inr st'"
  obtains st1 where "extract_line all_lines raw st = Inr st1"
    and "extract_loop all_lines rest st1 = Inr st'"
  using assms by (cases "extract_line all_lines raw st") auto

lemma extract_line_cases:
  assumes "extract_line all_lines raw (tbls, cur) = Inr (tbls1, cur1)"
  obtains
    (decl) m idx where "create_match (strip raw) = Some m"
      "list_index all_lines (strip raw) = Some idx"
      "tbls1 = dict_set tbls m \<lparr>dependencies = [], line_num = count_nonblank (take idx all_lines)\<rparr>"
      "cur1 = Some m"
  | (fkref) c r info where "create_match (strip raw) = None" "cur = Some c"
      "fk_match (strip raw) = Some r" "r \<noteq> c" "dict_get tbls c = Some info"
      "tbls1 = dict_set tbls c (info\<lparr>dependencies := dependencies info @ [r]\<rparr>)" "cur1 = cur"
  | (skip) "create_match (strip raw) = None" "tbls1 = tbls" "cur1 = cur"
      "\<forall>c r. cur = Some c \<and> fk_match (strip raw) = Some r \<longrightarrow> r = c"
proof (cases "create_match (strip raw)")
  case (Some m)
  from assms have "\<exists>idx. list_index all_lines (strip raw) = Some idx \<and>
      tbls1 = dict_set tbls m \<lparr>dependencies = [], line_num = count_nonblank (take idx all_lines)\<rparr> \<and>
      cur1 = Some m"
    unfolding extract_line_create [OF Some] by (simp split: option.splits)
  then show ?thesis using decl [OF Some] by blast
next
  case None
  note line = assms [unfolded extract_line_other [OF None]]
  show ?thesis
  proof (cases cur)
    case none: None
    with line have "tbls1 = tbls" "cur1 = cur" by simp_all
    then show ?thesis using skip [OF None] none by simp
  next
    case (Some c)
    show ?thesis
    proof (cases "fk_match (strip raw)")
      case nofk: None
      with line Some have "tbls1 = tbls" "cur1 = cur" by simp_all
      then show ?thesis using skip [OF None] nofk by simp
    next
      case fk: (Some r)
      show ?thesis
      proof (cases "r = c")
        case True
        with line Some fk have "tbls1 = tbls" "cur1 = cur" by simp_all
        then show ?thesis using skip [OF None] Some fk True by simp
      next
        case False
        with line Some fk obtain info where "dict_get tbls c = Some info"
          "tbls1 = dict_set tbls c (info\<lparr>dependencies := dependencies info @ [r]\<rparr>)" "cur1 = cur"
          by (cases "dict_get tbls c") simp_all
        then show ?thesis using fkref [OF None Some fk False] by blast
      qed
    qed
  qed
qed

lemma extract_loop_keys:
  "extract_loop all_lines xs (tbls, cur) = Inr (tbls', cur') \<Longrightarrow>
   dict_keys tbls' = fold add_key (declared_names xs) (dict_keys tbls)"
proof (induction xs arbitrary: tbls cur)
  case Nil
  then show ?case by simp
next
  case (Cons raw rest)
  from Cons.prems obtain st1 where line: "extract_line all_lines raw (tbls, cur) = Inr st1"
    and loop: "extract_loop all_lines rest st1 = Inr (tbls', cur')"
    by (rule extract_loop_Cons_Inr)
  obtain tbls1 cur1 where st1: "st1 = (tbls1, cur1)" by (cases st1)
  note IH = Cons.IH [OF loop [unfolded st1]]
  from line [unfolded st1] show ?case
  proof (cases rule: extract_line_cases)
    case (decl m idx)
    then show ?thesis by (simp add: IH dict_keys_set add_key_def)
  next
    case (fkref c r info)
    then have "c \<in> set (dict_keys tbls)" by (simp add: dict_get_Some_key)
    with fkref show ?thesis by (simp add: IH dict_keys_set)
  next
    case skip
    then show ?thesis by (simp add: IH)
  qed
qed

lemma extract_loop_dependencies:
  "extract_loop all_lines xs (tbls, cur) = Inr (tbls', cur') \<Longrightarrow>
   map_option dependencies (dict_get tbls' n) =
     (case last_span n xs of
        Some s \<Rightarrow> Some (span_dependencies n s)
      | None \<Rightarrow>
          map_option
            (\<lambda>info. dependencies info @ (if cur = Some n then span_dependencies n xs else []))
            (dict_get tbls n))"
proof (induction xs arbitrary: tbls cur)
  case Nil
  then show ?case by (simp add: option.map_ident)
next
  case (Cons raw rest)
  from Cons.prems obtain st1 where line: "extract_line all_lines raw (tbls, cur) = Inr st1"
    and loop: "extract_loop all_lines rest st1 = Inr (tbls', cur')"
    by (rule extract_loop_Cons_Inr)
  obtain tbls1 cur1 where st1: "st1 = (tbls1, cur1)" by (cases st1)
  note IH = Cons.IH [OF loop [unfolded st1]]
  from line [unfolded st1] show ?case
  proof (cases rule: extract_line_cases)
    case (decl m idx)
    then show ?thesis
      by (cases "last_span n rest") (simp_all add: IH dict_get_set option.map_ident)
  next
    case (fkref c r info)
    then show ?thesis
      by (cases "last_span n rest") (auto simp: IH dict_get_set)
  next
    case skip
    then show ?thesis
      by (cases "last_span n rest"; cases "fk_match (strip raw)") (auto simp: IH)
  qed
qed



lemma extract_loop_append:
  "extract_loop all_lines (xs @ ys) st =
     (case extract_loop all_lines xs st of
        Inl e \<Rightarrow> Inl e
      | Inr st' \<Rightarrow> extract_loop all_lines ys st')"
  by (induction xs arbitrary: st) (simp_all split: sum.splits)

lemma extract_loop_no_declaration:
  "\<forall>l\<in>set xs. create_match (strip l) = None \<Longrightarrow>
   extract_loop all_lines xs ([], None) = Inr ([], None)"
  by (induction xs) (simp_all add: extract_line_other)

text \<open>
  The scan raises exactly when the stripped text of a declaration line is none of the
  unstripped lines; it never fails on a missing key.
\<close>

lemma extract_line_ValueError:
  assumes "create_match (strip raw) \<noteq> None" "strip raw \<notin> set all_lines"
  shows "extract_line all_lines raw st = Inl ValueError"
proof -
  from assms(1) obtain m where "create_match (strip raw) = Some m" by auto
  moreover from assms(2) have "list_index all_lines (strip raw) = None"
    by (simp add: list_index_None_iff)
  ultimately show ?thesis by (cases st) (simp add: extract_line_create)
qed

lemma extract_line_succeeds:
  assumes "current_declared (tbls, cur)"
    and "create_match (strip raw) = None \<or> strip raw \<in> set all_lines"
  shows "\<exists>st1. extract_line all_lines raw (tbls, cur) = Inr st1 \<and> current_declared st1"
proof (cases "create_match (strip raw)")
  case (Some m)
  with assms(2) obtain idx where "list_index all_lines (strip raw) = Some idx"
    using list_index_None_iff [of all_lines "strip raw"] by auto
  with Some show ?thesis
    by (simp add: extract_line_create current_declared_def dict_keys_set)
next
  case None
  show ?thesis
  proof (cases cur)
    case none: None
    with None assms(1) show ?thesis by (simp add: extract_line_other)
  next
    case (Some c)
    with assms(1) have "c \<in> set (dict_keys tbls)" by (simp add: current_declared_def)
    then obtain info where "dict_get tbls c = Some info"
      unfolding dict_keys_def dict_get_def
      by (metis domD dom_map_of_conv_image_fst set_map)
    with None Some assms(1) show ?thesis
      by (simp add: extract_line_other current_declared_def dict_keys_set split: option.splits)
  qed
qed

lemma extract_loop_succeeds:
  assumes "current_declared st"
    and "\<forall>l\<in>set xs. create_match (strip l) = None \<or> strip l \<in> set all_lines"
  shows "\<exists>st'. extract_loop all_lines xs st = Inr st'"
  using assms
proof (induction xs arbitrary: st)
  case Nil
  then show ?case by simp
next
  case (Cons raw rest)
  obtain tbls cur where st: "st = (tbls, cur)" by (cases st)
  from Cons.prems obtain st1 where "extract_line all_lines raw st = Inr st1" "current_declared st1"
    using extract_line_succeeds [of tbls cur raw all_lines] unfolding st by auto
  with Cons.IH [of st1] Cons.prems(2) show ?case by simp
qed

lemma extract_loop_fails:
  assumes "current_declared st"
    and "\<exists>l\<in>set xs. create_match (strip l) \<noteq> None \<and> strip l \<notin> set all_lines"
  shows "extract_loop all_lines xs st = Inl ValueError"
  using assms
proof (induction xs arbitrary: st)
  case Nil
  then show ?case by simp
next
  case (Cons raw rest)
  obtain tbls cur where st: "st = (tbls, cur)" by (cases st)
  show ?case
  proof (cases "create_match (strip raw) \<noteq> None \<and> strip raw \<notin> set all_lines")
    case True
    then show ?thesis by (simp add: extract_line_ValueError)
  next
    case False
    then obtain st1 where line: "extract_line all_lines raw st = Inr st1" "current_declared st1"
      using extract_line_succeeds [of tbls cur raw all_lines] Cons.prems(1) unfolding st by auto
    from False Cons.prems(2)
    have "\<exists>l\<in>set rest. create_match (strip l) \<noteq> None \<and> strip l \<notin> set all_lines" by auto
    from Cons.IH [OF line(2) this] line(1) show ?thesis by simp
  qed
qed



subsection \<open>The result of extract\<close>

lemma extract_Inr:
  assumes "extract_table_definitions doc = Inr tbls"
  obtains cur where
    "extract_loop (split_newline doc) (split_newline doc) ([], None) = Inr (tbls, cur)"
  using assms unfolding extract_table_definitions_def Let_def
  by (cases "extract_loop (split_newline doc) (split_newline doc) ([], None)") auto

lemma extract_keys:
  assumes "extract_table_definitions doc = Inr tbls"
  shows "dict_keys tbls = first_appearances (declared_names (split_newline doc))"
proof -
  from assms obtain cur where
    "extract_loop (split_newline doc) (split_newline doc) ([], None) = Inr (tbls, cur)"
    by (rule extract_Inr)
  from extract_loop_keys [OF this] show ?thesis
    by (simp add: keys_first_appearances dict_keys_def)
qed

lemma extract_raises_iff:
  "extract_table_definitions doc = Inl e \<longleftrightarrow>
     e = ValueError \<and>
     (\<exists>l\<in>set (split_newline doc).
        create_match (strip l) \<noteq> None \<and> strip l \<notin> set (split_newline doc))"
proof (cases "\<exists>l\<in>set (split_newline doc).
                create_match (strip l) \<noteq> None \<and> strip l \<notin> set (split_newline doc)")
  case True
  have "current_declared ([], None)" by (simp add: current_declared_def)
  from extract_loop_fails [OF this True] True show ?thesis
    by (auto simp: extract_table_definitions_def)
next
  case False
  have "current_declared ([], None)" by (simp add: current_declared_def)
  from extract_loop_succeeds [OF this, of "split_newline doc" "split_newline doc"] False
  obtain st where "extract_loop (split_newline doc) (split_newline doc) ([], None) = Inr st"
    by auto
  with False show ?thesis by (simp add: extract_table_definitions_def)
qed

lemma extract_distinct:
  "extract_table_definitions doc = Inr tbls \<Longrightarrow> distinct (dict_keys tbls)"
  by (simp add: extract_keys distinct_first_appearances)

lemma extract_dependencies:
  assumes "extract_table_definitions doc = Inr tbls" "dict_get tbls d = Some info"
  shows "\<exists>s. last_span d (split_newline doc) = Some s \<and>
             dependencies info = span_dependencies d s"
proof -
  from assms(1) obtain cur where
    "extract_loop (split_newline doc) (split_newline doc) ([], None) = Inr (tbls, cur)"
    by (rule extract_Inr)
  from extract_loop_dependencies [OF this, of d] assms(2) show ?thesis
    by (cases "last_span d (split_newline doc)") (simp_all add: dict_get_def)
qed

lemma span_dependencies_not_self: "d \<notin> set (span_dependencies d ls)"
  by (induction ls) (simp_all split: option.splits)

lemma span_dependencies_line:
  "r \<in> set (span_dependencies d ls) \<Longrightarrow> \<exists>l\<in>set ls. fk_match (strip l) = Some r"
  by (induction ls) (auto split: option.splits if_splits)

lemma last_span_decomposition:
  "last_span d xs = Some s \<Longrightarrow> \<exists>p l. xs = p @ l # s \<and> create_match (strip l) = Some d"
proof (induction xs)
  case Nil
  then show ?case by simp
next
  case (Cons x xs)
  show ?case
  proof (cases "last_span d xs")
    case None
    with Cons.prems have "create_match (strip x) = Some d" "s = xs"
      by (simp_all split: if_splits)
    then have "x # xs = [] @ x # s \<and> create_match (strip x) = Some d" by simp
    then show ?thesis by blast
  next
    case (Some t)
    with Cons.prems have "t = s" by simp
    with Some Cons.IH obtain p l where "xs = p @ l # s" "create_match (strip l) = Some d" by auto
    then have "x # xs = (x # p) @ l # s \<and> create_match (strip l) = Some d" by simp
    then show ?thesis by blast
  qed
qed

lemma last_span_skip:
  "\<forall>l\<in>set pre. create_match (strip l) = None \<Longrightarrow> last_span d (pre @ rest) = last_span d rest"
  by (induction pre) (simp_all split: option.splits)

lemma last_span_subset:
  assumes "last_span d xs = Some s"
  shows "set s \<subseteq> set xs"
  using last_span_decomposition [OF assms] by auto



subsection \<open>The report\<close>

lemma validate_dependencies_total:
  "\<exists>vs. validate_dependencies tbls = Inr vs"
  by (simp add: validate_dependencies_def validate_run_lookup)

lemma validate_dependencies_expected:
  "distinct (dict_keys tbls) \<Longrightarrow> validate_dependencies tbls = Inr (expected_violations tbls)"
  by (simp add: validate_dependencies_def validate_run_expected)

lemma entry_at:
  assumes "distinct (dict_keys tbls)" "list_index (dict_keys tbls) d = Some i"
    and "dict_get tbls d = Some info"
  shows "i < length tbls \<and> tbls ! i = (d, info)"
proof -
  from assms(2) have "i < length tbls" "map fst tbls ! i = d"
    by (simp_all add: list_index_Some_iff dict_keys_def)
  then have i: "i < length tbls" "fst (tbls ! i) = d" by simp_all
  then have "(d, snd (tbls ! i)) \<in> set tbls"
    by (metis nth_mem prod.collapse)
  with assms(1) have "map_of tbls d = Some (snd (tbls ! i))"
    by (simp add: dict_keys_def)
  with assms(3) have "snd (tbls ! i) = info" by (simp add: dict_get_def)
  with i show ?thesis by (metis prod.collapse)
qed

lemma entry_index:
  assumes "distinct (dict_keys tbls)" "i < length tbls" "tbls ! i = (d, info)"
  shows "list_index (dict_keys tbls) d = Some i \<and> dict_get tbls d = Some info"
proof -
  from assms(2,3) have "dict_keys tbls ! i = d" by (simp add: dict_keys_def)
  with list_index_distinct [OF assms(1), of i] assms(2)
  have "list_index (dict_keys tbls) d = Some i" by (simp add: dict_keys_def)
  moreover from assms(2,3) have "(d, info) \<in> set tbls" by (metis nth_mem)
  with assms(1) have "dict_get tbls d = Some info" by (simp add: dict_keys_def dict_get_def)
  ultimately show ?thesis by simp
qed

lemma enumerate_upt: "enumerate 0 xs = map (\<lambda>i. (i, xs ! i)) [0..<length xs]"
  by (rule nth_equalityI) (simp_all add: nth_enumerate_eq)

lemma expected_violations_upt:
  "expected_violations tbls =
     concat (map (\<lambda>i. declaration_violations tbls i (fst (tbls ! i)) (dependencies (snd (tbls ! i))))
                 [0..<length tbls])"
  unfolding expected_violations_def enumerate_upt map_map
  by (rule arg_cong [where f = concat], rule map_cong) (simp_all add: case_prod_beta)

lemma subject_reference_violations:
  "v \<in> set (reference_violations tbls i d r) \<Longrightarrow> subject v = d \<and> target v = Some r"
  by (auto simp: reference_violations_def split: option.splits if_splits)

lemma subject_declaration_violations:
  "v \<in> set (declaration_violations tbls i d deps) \<Longrightarrow>
   subject v = d \<and> (\<exists>r\<in>set deps. target v = Some r)"
  by (auto simp: declaration_violations_def dest: subject_reference_violations)

lemma expected_violations_mem:
  "v \<in> set (expected_violations tbls) \<longleftrightarrow>
     (\<exists>i<length tbls. v \<in> set (declaration_violations tbls i (fst (tbls ! i))
                                    (dependencies (snd (tbls ! i)))))"
  by (auto simp: expected_violations_upt)

lemma concat_single:
  assumes "i < n" "\<And>j. j < n \<Longrightarrow> j \<noteq> i \<Longrightarrow> F j = []"
  shows "concat (map F [0..<n]) = F i"
  using assms
proof (induction n)
  case 0
  then show ?case by simp
next
  case (Suc n)
  show ?case
  proof (cases "i = n")
    case True
    have "concat (map F [0..<n]) = []" using Suc.prems(2) True by auto
    with True show ?thesis by simp
  next
    case False
    with Suc.prems have "i < n" by simp
    from Suc.IH [OF this] Suc.prems(2) have "concat (map F [0..<n]) = F i" by simp
    moreover have "F n = []" using Suc.prems(2) False by simp
    ultimately show ?thesis by simp
  qed
qed

lemma filter_subject_expected:
  assumes "distinct (dict_keys tbls)" "i < length tbls" "tbls ! i = (d, info)"
  shows "filter (\<lambda>v. subject v = d) (expected_violations tbls) =
         declaration_violations tbls i d (dependencies info)"
proof -
  let ?F = "\<lambda>j. filter (\<lambda>v. subject v = d)
              (declaration_violations tbls j (fst (tbls ! j)) (dependencies (snd (tbls ! j))))"
  have other: "?F j = []" if "j < length tbls" "j \<noteq> i" for j
  proof -
    from assms(1) that assms(2) have "dict_keys tbls ! j \<noteq> dict_keys tbls ! i"
      by (simp add: distinct_conv_nth dict_keys_def)
    with that assms(2,3) have "fst (tbls ! j) \<noteq> d" by (simp add: dict_keys_def)
    then show ?thesis
      by (auto simp: filter_empty_conv dest: subject_declaration_violations)
  qed
  have "?F i = declaration_violations tbls i d (dependencies info)"
    using assms(3) by (auto simp: filter_id_conv dest: subject_declaration_violations)
  moreover have "filter (\<lambda>v. subject v = d) (expected_violations tbls) = concat (map ?F [0..<length tbls])"
    by (simp add: expected_violations_upt filter_concat comp_def)
  ultimately show ?thesis using concat_single [of i "length tbls" ?F, OF assms(2) other] by simp
qed



lemma subject_index_declaration:
  assumes "distinct (dict_keys tbls)" "i < length tbls"
    and "v \<in> set (declaration_violations tbls i (fst (tbls ! i)) deps)"
  shows "subject_index (dict_keys tbls) v = i"
proof -
  from assms(3) have "subject v = fst (tbls ! i)" by (simp add: subject_declaration_violations)
  with assms(2) have "subject v = dict_keys tbls ! i" by (simp add: dict_keys_def)
  with list_index_distinct [OF assms(1), of i] assms(2) show ?thesis
    by (simp add: subject_index_def dict_keys_def)
qed

lemma sorted_concat_upt:
  assumes "\<And>j x. j < n \<Longrightarrow> x \<in> set (F j) \<Longrightarrow> g x = j"
  shows "sorted (map g (concat (map F [0..<n])))"
  using assms
proof (induction n)
  case 0
  then show ?case by simp
next
  case (Suc n)
  have "sorted (map g (concat (map F [0..<n])))" using Suc by simp
  moreover have "sorted (map g (F n))"
  proof -
    have "map g (F n) = replicate (length (F n)) n"
      using Suc.prems [of n] by (simp add: map_replicate_const [symmetric] cong: map_cong)
    then show ?thesis by simp
  qed
  moreover have "\<forall>x\<in>set (map g (concat (map F [0..<n]))). \<forall>y\<in>set (map g (F n)). x \<le> y"
  proof (intro ballI)
    fix x y
    assume "x \<in> set (map g (concat (map F [0..<n])))" "y \<in> set (map g (F n))"
    then obtain j a b where "j < n" "a \<in> set (F j)" "x = g a" "b \<in> set (F n)" "y = g b"
      by auto
    with Suc.prems [of j a] Suc.prems [of n b] show "x \<le> y" by simp
  qed
  ultimately show ?case by (simp add: sorted_append)
qed

lemma sorted_expected_violations:
  assumes "distinct (dict_keys tbls)"
  shows "sorted (map (subject_index (dict_keys tbls)) (expected_violations tbls))"
  unfolding expected_violations_upt
  by (rule sorted_concat_upt) (rule subject_index_declaration [OF assms])

lemma count_declaration_violations:
  "length (filter (\<lambda>v. target v = Some r) (declaration_violations tbls i d deps)) =
     (if reported tbls i r then count_list deps r else 0)"
proof (induction deps)
  case Nil
  then show ?case by (simp add: declaration_violations_def)
next
  case (Cons x deps)
  have split: "declaration_violations tbls i d (x # deps) =
               reference_violations tbls i d x @ declaration_violations tbls i d deps"
    by (simp add: declaration_violations_def)
  have "length (filter (\<lambda>v. target v = Some r) (reference_violations tbls i d x)) =
        (if x = r \<and> reported tbls i r then 1 else 0)"
    by (auto simp: reference_violations_def reported_def split: option.splits)
  then show ?case unfolding split using Cons.IH by simp
qed

lemma targets_declaration_violations:
  "subseq (map target (declaration_violations tbls i d deps)) (map Some deps)"
proof (induction deps)
  case Nil
  then show ?case by (simp add: declaration_violations_def)
next
  case (Cons x deps)
  have split: "declaration_violations tbls i d (x # deps) =
               reference_violations tbls i d x @ declaration_violations tbls i d deps"
    by (simp add: declaration_violations_def)
  have "map target (reference_violations tbls i d x) = [] \<or>
        map target (reference_violations tbls i d x) = [Some x]"
    by (auto simp: reference_violations_def split: option.splits)
  then show ?case unfolding split using Cons.IH by auto
qed



lemma expected_pair_iff:
  assumes "distinct (dict_keys tbls)" "i < length tbls" "tbls ! i = (d, info)"
  shows "v \<in> set (expected_violations tbls) \<and> subject v = d \<and> target v = Some r \<longleftrightarrow>
         r \<in> set (dependencies info) \<and> v \<in> set (reference_violations tbls i d r)"
proof
  assume l: "v \<in> set (expected_violations tbls) \<and> subject v = d \<and> target v = Some r"
  then have "v \<in> set (filter (\<lambda>v. subject v = d) (expected_violations tbls))" by simp
  then have "v \<in> set (declaration_violations tbls i d (dependencies info))"
    unfolding filter_subject_expected [OF assms] .
  then obtain r' where r': "r' \<in> set (dependencies info)" "v \<in> set (reference_violations tbls i d r')"
    by (auto simp: declaration_violations_def)
  then have "target v = Some r'" by (simp add: subject_reference_violations)
  with l have "r' = r" by simp
  with r' show "r \<in> set (dependencies info) \<and> v \<in> set (reference_violations tbls i d r)" by simp
next
  assume r: "r \<in> set (dependencies info) \<and> v \<in> set (reference_violations tbls i d r)"
  then have "v \<in> set (declaration_violations tbls i (fst (tbls ! i)) (dependencies (snd (tbls ! i))))"
    using assms(3) by (auto simp: declaration_violations_def)
  with assms(2) have "v \<in> set (expected_violations tbls)"
    unfolding expected_violations_mem by blast
  moreover from r have "subject v = d \<and> target v = Some r"
    by (blast dest: subject_reference_violations)
  ultimately show "v \<in> set (expected_violations tbls) \<and> subject v = d \<and> target v = Some r"
    by simp
qed

lemma length_declaration_violations:
  "length (declaration_violations tbls i d deps) = length (filter (reported tbls i) deps)"
  by (induction deps)
     (auto simp: declaration_violations_def reference_violations_def reported_def
           split: option.splits)

lemma length_expected_violations:
  "length (expected_violations tbls) =
     sum_list (map (\<lambda>(i, (d, info)). length (filter (reported tbls i) (dependencies info)))
                   (enumerate 0 tbls))"
  unfolding expected_violations_def length_concat map_map
  by (rule arg_cong [where f = sum_list], rule map_cong)
     (auto simp: length_declaration_violations)


lemma expected_violations_entry:
  assumes "distinct (dict_keys tbls)" "v \<in> set (expected_violations tbls)"
  shows "\<exists>d info r. dict_get tbls d = Some info \<and> r \<in> set (dependencies info) \<and>
                     subject v = d \<and> target v = Some r"
proof -
  from assms(2) obtain i where i: "i < length tbls"
    "v \<in> set (declaration_violations tbls i (fst (tbls ! i)) (dependencies (snd (tbls ! i))))"
    unfolding expected_violations_mem by blast
  from entry_index [OF assms(1) i(1), of "fst (tbls ! i)" "snd (tbls ! i)"]
  have "dict_get tbls (fst (tbls ! i)) = Some (snd (tbls ! i))" by simp
  with subject_declaration_violations [OF i(2)] show ?thesis by blast
qed


lemma expected_violations_no_duplicate:
  "DuplicateDeclaration d \<notin> set (expected_violations tbls)"
proof
  assume "DuplicateDeclaration d \<in> set (expected_violations tbls)"
  then obtain i where
    "DuplicateDeclaration d \<in> set (declaration_violations tbls i (fst (tbls ! i))
        (dependencies (snd (tbls ! i))))"
    unfolding expected_violations_mem by blast
  from subject_declaration_violations [OF this] show False by simp
qed

section \<open>Properties\<close>

subsection \<open>A name declared more than once\<close>

text \<open>
  C1, as stated, asks that both declarations of a repeated name are recorded and that the
  validator reports one duplicate declaration for it. The dictionary has one entry for each
  key: in the document below \<^verbatim>\<open>products\<close> is declared twice, the second declaration
  replaces the entry of the first (whose dependency on \<^verbatim>\<open>categories\<close> is gone), and the
  report is empty.
\<close>

theorem redeclaration_counterexample:
  "extract_table_definitions duplicate_document =
     Inr [(''products'', \<lparr>dependencies = [], line_num = 0\<rparr>)] \<and>
   validate_dependencies [(''products'', \<lparr>dependencies = [], line_num = 0\<rparr>)] = Inr [] \<and>
   declared_names (split_newline duplicate_document) = [''products'', ''products'']"
  by code_simp

text \<open>
  C1, amended. When a name is declared more than once, the dictionary keeps one entry for
  it: the keys are the declared names without repetition, each at the place of its first
  declaration, and the dependencies of an entry are those of the span after the last
  declaration of its name. The validator reports no duplicate declaration.
\<close>

theorem redeclaration_keeps_one_entry:
  assumes "extract_table_definitions doc = Inr tbls"
  shows "dict_keys tbls = first_appearances (declared_names (split_newline doc)) \<and>
         distinct (dict_keys tbls) \<and>
         (\<forall>d info. dict_get tbls d = Some info \<longrightarrow>
            (\<exists>s. last_span d (split_newline doc) = Some s \<and>
                 dependencies info = span_dependencies d s)) \<and>
         (\<exists>vs. validate_dependencies tbls = Inr vs \<and>
               (\<forall>d. DuplicateDeclaration d \<notin> set vs))"
proof -
  have dist: "distinct (dict_keys tbls)" using assms by (rule extract_distinct)
  from extract_keys [OF assms] dist extract_dependencies [OF assms]
    validate_dependencies_expected [OF dist] expected_violations_no_duplicate
  show ?thesis by auto
qed

theorem redeclaration_keeps_one_entry_witness:
  "extract_table_definitions duplicate_document =
     Inr [(''products'', \<lparr>dependencies = [], line_num = 0\<rparr>)] \<and>
   dict_keys [(''products'', \<lparr>dependencies = [], line_num = 0\<rparr>)] =
     first_appearances (declared_names (split_newline duplicate_document)) \<and>
   distinct (dict_keys [(''products'', \<lparr>dependencies = [], line_num = 0\<rparr>)]) \<and>
   last_span ''products'' (split_newline duplicate_document) = Some ['');''] \<and>
   span_dependencies ''products'' ['');''] = [] \<and>
   (\<exists>vs. validate_dependencies [(''products'', \<lparr>dependencies = [], line_num = 0\<rparr>)] = Inr vs \<and>
         (\<forall>d. DuplicateDeclaration d \<notin> set vs))"
proof -
  have e: "extract_table_definitions duplicate_document =
           Inr [(''products'', \<lparr>dependencies = [], line_num = 0\<rparr>)]"
    by code_simp
  have l: "last_span ''products'' (split_newline duplicate_document) = Some ['');'']"
    by code_simp
  have s: "span_dependencies ''products'' ['');''] = []" by code_simp
  from redeclaration_keeps_one_entry [OF e] e l s show ?thesis by blast
qed

subsection \<open>Whitespace around a declaration line\<close>

text \<open>
  C2. The claim is that extract and validate complete on every document, also when a
  declaration line carries leading or trailing whitespace. The scan strips each line and then
  looks the stripped line up in the list of unstripped lines: on a document whose only
  declaration line is indented, or ends with a space, the lookup fails with ValueError,
  while the same line without the surrounding whitespace is accepted.
\<close>

theorem extract_indented_declaration_raises:
  "extract_table_definitions ''  CREATE TABLE IF NOT EXISTS roles ('' = Inl ValueError \<and>
   extract_table_definitions ''CREATE TABLE IF NOT EXISTS roles ( '' = Inl ValueError \<and>
   extract_table_definitions ''CREATE TABLE IF NOT EXISTS roles ('' =
     Inr [(''roles'', \<lparr>dependencies = [], line_num = 0\<rparr>)]"
  by code_simp

subsection \<open>Forward references\<close>

text \<open>
  C3. Let \<open>d\<close> be the key at index \<open>i\<close> of the key order, and \<open>r\<close> one of its
  dependencies that is a key, at index \<open>j\<close>. The report contains a forward reference from
  \<open>d\<close> to \<open>r\<close> exactly when \<open>i < j\<close>, and then with the two positions as printed
  (\<open>i + 1\<close> and \<open>j + 1\<close>); it never contains an undeclared reference from \<open>d\<close> to
  \<open>r\<close>. So a dependency declared at an earlier or equal position gives no violation.
\<close>

theorem forward_reference_iff_declared_later:
  assumes "distinct (dict_keys tbls)"
    and "list_index (dict_keys tbls) d = Some i"
    and "dict_get tbls d = Some info"
    and "r \<in> set (dependencies info)"
    and "list_index (dict_keys tbls) r = Some j"
  shows "\<exists>vs. validate_dependencies tbls = Inr vs \<and>
           (\<forall>p q. ForwardReference d p r q \<in> set vs \<longleftrightarrow>
                    i < j \<and> p = int i + 1 \<and> q = int j + 1) \<and>
           UndeclaredReference d r \<notin> set vs"
proof -
  from entry_at [OF assms(1-3)] have at: "i < length tbls" "tbls ! i = (d, info)" by simp_all
  note pair = expected_pair_iff [OF assms(1) at, of _ r]
  have fwd: "ForwardReference d p r q \<in> set (expected_violations tbls) \<longleftrightarrow>
             i < j \<and> p = int i + 1 \<and> q = int j + 1" for p q
    using pair [of "ForwardReference d p r q"] assms(4,5)
    by (auto simp: reference_violations_def)
  have und: "UndeclaredReference d r \<notin> set (expected_violations tbls)"
    using pair [of "UndeclaredReference d r"] assms(4,5)
    by (auto simp: reference_violations_def)
  from fwd und validate_dependencies_expected [OF assms(1)] show ?thesis by simp
qed

theorem forward_reference_iff_declared_later_witness:
  "\<exists>vs. validate_dependencies forward_tables = Inr vs \<and>
     (\<forall>p q. ForwardReference ''employees'' p ''roles'' q \<in> set vs \<longleftrightarrow>
              (0::nat) < 1 \<and> p = int 0 + 1 \<and> q = int 1 + 1) \<and>
     UndeclaredReference ''employees'' ''roles'' \<notin> set vs"
proof -
  have "distinct (dict_keys forward_tables)" by code_simp
  moreover have "list_index (dict_keys forward_tables) ''employees'' = Some 0" by code_simp
  moreover have "dict_get forward_tables ''employees'' = Some \<lparr>dependencies = [''roles''], line_num = 0\<rparr>"
    by code_simp
  moreover have "''roles'' \<in> set (dependencies \<lparr>dependencies = [''roles''], line_num = 0\<rparr>)" by simp
  moreover have "list_index (dict_keys forward_tables) ''roles'' = Some 1" by code_simp
  ultimately show ?thesis by (rule forward_reference_iff_declared_later)
qed

subsection \<open>Undeclared references and the complete pass\<close>

text \<open>
  C4. Let \<open>d\<close> be a key of the dictionary and \<open>r\<close> one of its dependencies that is
  no key. The report contains an undeclared reference from \<open>d\<close> to \<open>r\<close> and no forward
  reference for that pair. The pass does not stop at a violation: the report is the complete
  list \<open>expected_violations\<close>, with one violation for every dependency, of every entry,
  that is no key or a later key.
\<close>

theorem undeclared_reference_reported:
  assumes "distinct (dict_keys tbls)"
    and "list_index (dict_keys tbls) d = Some i"
    and "dict_get tbls d = Some info"
    and "r \<in> set (dependencies info)"
    and "\<not> dict_contains tbls r"
  shows "\<exists>vs. validate_dependencies tbls = Inr vs \<and>
           UndeclaredReference d r \<in> set vs \<and>
           (\<forall>p q. ForwardReference d p r q \<notin> set vs) \<and>
           vs = expected_violations tbls \<and>
           length vs =
             sum_list (map (\<lambda>(k, (n, inf)). length (filter (reported tbls k) (dependencies inf)))
                           (enumerate 0 tbls))"
proof -
  from entry_at [OF assms(1-3)] have at: "i < length tbls" "tbls ! i = (d, info)" by simp_all
  from assms(5) have none: "list_index (dict_keys tbls) r = None"
    by (simp add: dict_contains_def list_index_None_iff)
  note pair = expected_pair_iff [OF assms(1) at, of _ r]
  have und: "UndeclaredReference d r \<in> set (expected_violations tbls)"
    using pair [of "UndeclaredReference d r"] assms(4) none
    by (simp add: reference_violations_def)
  have fwd: "ForwardReference d p r q \<notin> set (expected_violations tbls)" for p q
    using pair [of "ForwardReference d p r q"] assms(4) none
    by (simp add: reference_violations_def)
  from und fwd validate_dependencies_expected [OF assms(1)] length_expected_violations [of tbls]
  show ?thesis by simp
qed

theorem undeclared_reference_reported_witness:
  "\<exists>vs. validate_dependencies undeclared_tables = Inr vs \<and>
     UndeclaredReference ''orders'' ''customers'' \<in> set vs \<and>
     (\<forall>p q. ForwardReference ''orders'' p ''customers'' q \<notin> set vs) \<and>
     vs = expected_violations undeclared_tables \<and>
     length vs =
       sum_list (map (\<lambda>(k, (n, inf)). length (filter (reported undeclared_tables k) (dependencies inf)))
                     (enumerate 0 undeclared_tables))"
proof -
  have "distinct (dict_keys undeclared_tables)" by code_simp
  moreover have "list_index (dict_keys undeclared_tables) ''orders'' = Some 0" by code_simp
  moreover have "dict_get undeclared_tables ''orders'' =
                 Some \<lparr>dependencies = [''customers'', ''payments''], line_num = 0\<rparr>"
    by code_simp
  moreover have "''customers'' \<in> set (dependencies \<lparr>dependencies = [''customers'', ''payments''], line_num = 0\<rparr>)"
    by simp
  moreover have "\<not> dict_contains undeclared_tables ''customers''" by code_simp
  ultimately show ?thesis by (rule undeclared_reference_reported)
qed

subsection \<open>Self-references\<close>

text \<open>
  C5. In the dictionary extract returns, no table is among its own dependencies: a
  dependency line that names the table of the span it stands in is not recorded. So no
  violation of the report has its subject as its target.
\<close>

theorem self_reference_excluded:
  assumes "extract_table_definitions doc = Inr tbls"
  shows "(\<forall>d info. dict_get tbls d = Some info \<longrightarrow> d \<notin> set (dependencies info)) \<and>
         (\<exists>vs. validate_dependencies tbls = Inr vs \<and>
               (\<forall>v\<in>set vs. target v \<noteq> Some (subject v)))"
proof -
  have deps: "d \<notin> set (dependencies info)" if "dict_get tbls d = Some info" for d info
    using extract_dependencies [OF assms that] span_dependencies_not_self [of d] by auto
  have dist: "distinct (dict_keys tbls)" using assms by (rule extract_distinct)
  have "target v \<noteq> Some (subject v)" if "v \<in> set (expected_violations tbls)" for v
    using expected_violations_entry [OF dist that] deps by auto
  with validate_dependencies_expected [OF dist] deps show ?thesis by simp
qed

theorem self_reference_excluded_witness:
  "extract_table_definitions self_document =
     Inr [(''categories'', \<lparr>dependencies = [''owners''], line_num = 0\<rparr>)] \<and>
   ''categories'' \<notin> set (dependencies \<lparr>dependencies = [''owners''], line_num = 0\<rparr>) \<and>
   (\<exists>vs. validate_dependencies [(''categories'', \<lparr>dependencies = [''owners''], line_num = 0\<rparr>)] = Inr vs \<and>
         (\<forall>v\<in>set vs. target v \<noteq> Some (subject v)))"
proof -
  have e: "extract_table_definitions self_document =
           Inr [(''categories'', \<lparr>dependencies = [''owners''], line_num = 0\<rparr>)]"
    by code_simp
  from self_reference_excluded [OF e] e show ?thesis by simp
qed

subsection \<open>Several dependency lines naming one table\<close>

text \<open>
  C6, as stated, asks that a name referenced by several dependency lines of one span occurs
  once among the dependencies, so that at most one violation is reported for the pair. The
  dependencies are a list that is appended to for every line: in the document below
  \<^verbatim>\<open>customers\<close> occurs twice, and the undeclared reference is reported twice.
\<close>

theorem repeated_reference_counterexample:
  "extract_table_definitions repeated_document =
     Inr [(''orders'', \<lparr>dependencies = [''customers'', ''customers''], line_num = 0\<rparr>)] \<and>
   validate_dependencies
     [(''orders'', \<lparr>dependencies = [''customers'', ''customers''], line_num = 0\<rparr>)] =
     Inr [UndeclaredReference ''orders'' ''customers'',
          UndeclaredReference ''orders'' ''customers'']"
  by code_simp

text \<open>
  C6, amended. The dependencies of an entry are the names referenced by the dependency lines
  of its span, in order, one occurrence for each line. For the entry \<open>d\<close> at index \<open>i\<close>
  and every name \<open>r\<close>, the number of violations reported for the pair is the number of
  occurrences of \<open>r\<close> among the dependencies of \<open>d\<close> when \<open>r\<close> is no key or a later
  key, and zero otherwise.
\<close>

theorem one_violation_for_each_dependency_line:
  assumes "extract_table_definitions doc = Inr tbls"
    and "dict_get tbls d = Some info"
    and "list_index (dict_keys tbls) d = Some i"
  shows "(\<exists>s. last_span d (split_newline doc) = Some s \<and>
              dependencies info = span_dependencies d s) \<and>
         (\<exists>vs. validate_dependencies tbls = Inr vs \<and>
               (\<forall>r. length (filter (\<lambda>v. subject v = d \<and> target v = Some r) vs) =
                      (if reported tbls i r then count_list (dependencies info) r else 0)))"
proof -
  have dist: "distinct (dict_keys tbls)" using assms(1) by (rule extract_distinct)
  from entry_at [OF dist assms(3,2)] have at: "i < length tbls" "tbls ! i = (d, info)"
    by simp_all
  have "length (filter (\<lambda>v. subject v = d \<and> target v = Some r) (expected_violations tbls)) =
        (if reported tbls i r then count_list (dependencies info) r else 0)" for r
  proof -
    have "filter (\<lambda>v. subject v = d \<and> target v = Some r) (expected_violations tbls) =
          filter (\<lambda>v. target v = Some r) (filter (\<lambda>v. subject v = d) (expected_violations tbls))"
      by (simp add: conj_commute)
    then show ?thesis
      unfolding filter_subject_expected [OF dist at]
      by (simp add: count_declaration_violations)
  qed
  with extract_dependencies [OF assms(1,2)] validate_dependencies_expected [OF dist]
  show ?thesis by simp
qed

theorem one_violation_for_each_dependency_line_witness:
  "extract_table_definitions repeated_document =
     Inr [(''orders'', \<lparr>dependencies = [''customers'', ''customers''], line_num = 0\<rparr>)] \<and>
   (\<exists>s. last_span ''orders'' (split_newline repeated_document) = Some s \<and>
        dependencies \<lparr>dependencies = [''customers'', ''customers''], line_num = 0\<rparr> =
          span_dependencies ''orders'' s) \<and>
   (\<exists>vs. validate_dependencies
           [(''orders'', \<lparr>dependencies = [''customers'', ''customers''], line_num = 0\<rparr>)] = Inr vs \<and>
         (\<forall>r. length (filter (\<lambda>v. subject v = ''orders'' \<and> target v = Some r) vs) =
               (if reported [(''orders'', \<lparr>dependencies = [''customers'', ''customers''], line_num = 0\<rparr>)] 0 r
                then count_list (dependencies \<lparr>dependencies = [''customers'', ''customers''], line_num = 0\<rparr>) r
                else 0)))"
proof -
  have e: "extract_table_definitions repeated_document =
           Inr [(''orders'', \<lparr>dependencies = [''customers'', ''customers''], line_num = 0\<rparr>)]"
    by code_simp
  have g: "dict_get [(''orders'', \<lparr>dependencies = [''customers'', ''customers''], line_num = 0\<rparr>)]
             ''orders'' = Some \<lparr>dependencies = [''customers'', ''customers''], line_num = 0\<rparr>"
    by code_simp
  have i: "list_index (dict_keys [(''orders'', \<lparr>dependencies = [''customers'', ''customers''], line_num = 0\<rparr>)])
             ''orders'' = Some 0"
    by code_simp
  from one_violation_for_each_dependency_line [OF e g i] e show ?thesis by blast
qed

subsection \<open>Order of the report\<close>

text \<open>
  C7. The report is a function of the document: the scan, the dictionary (whose order is
  its insertion order) and the validator read nothing else, so every run on one document
  gives the same list. Its order is fixed as follows. The keys of the dictionary are the
  declared names in document order, each at its first declaration; the dependencies of an
  entry are those of the dependency lines of its span, in document order. The report lists
  the violations by the index of their subject in the key order, and the targets of the
  violations of one subject follow the order of its dependencies.
\<close>

theorem violations_in_document_order:
  assumes "extract_table_definitions doc = Inr tbls"
  shows "dict_keys tbls = first_appearances (declared_names (split_newline doc)) \<and>
         (\<forall>d info. dict_get tbls d = Some info \<longrightarrow>
            (\<exists>s. last_span d (split_newline doc) = Some s \<and>
                 dependencies info = span_dependencies d s)) \<and>
         (\<exists>vs. check_document doc = Inr vs \<and>
               vs = expected_violations tbls \<and>
               sorted (map (subject_index (dict_keys tbls)) vs) \<and>
               (\<forall>d info. dict_get tbls d = Some info \<longrightarrow>
                  subseq (map target (filter (\<lambda>v. subject v = d) vs))
                         (map Some (dependencies info))))"
proof -
  have dist: "distinct (dict_keys tbls)" using assms by (rule extract_distinct)
  have run: "check_document doc = Inr (expected_violations tbls)"
    using assms validate_dependencies_expected [OF dist] by (simp add: check_document_def)
  have sub: "subseq (map target (filter (\<lambda>v. subject v = d) (expected_violations tbls)))
                    (map Some (dependencies info))"
    if "dict_get tbls d = Some info" for d info
  proof -
    from dict_get_Some_key [OF that] obtain i where "list_index (dict_keys tbls) d = Some i"
      using list_index_None_iff [of "dict_keys tbls" d] by auto
    from entry_at [OF dist this that] have "i < length tbls" "tbls ! i = (d, info)" by simp_all
    from filter_subject_expected [OF dist this] show ?thesis
      by (simp add: targets_declaration_violations)
  qed
  from extract_keys [OF assms] extract_dependencies [OF assms] run
    sorted_expected_violations [OF dist] sub
  show ?thesis by blast
qed

theorem violations_in_document_order_witness:
  "extract_table_definitions forward_document = Inr forward_tables \<and>
   dict_keys forward_tables = first_appearances (declared_names (split_newline forward_document)) \<and>
   (\<exists>vs. check_document forward_document = Inr vs \<and>
         vs = expected_violations forward_tables \<and>
         sorted (map (subject_index (dict_keys forward_tables)) vs) \<and>
         (\<forall>d info. dict_get forward_tables d = Some info \<longrightarrow>
            subseq (map target (filter (\<lambda>v. subject v = d) vs))
                   (map Some (dependencies info))))"
proof -
  have e: "extract_table_definitions forward_document = Inr forward_tables" by code_simp
  from violations_in_document_order [OF e] e show ?thesis by blast
qed

subsection \<open>Documents without declarations\<close>

text \<open>
  C8. When no line of the document is a declaration line, extract returns the empty
  dictionary without raising, and validate returns the empty list for it.
\<close>

theorem no_declaration_no_violation:
  assumes "\<forall>l\<in>set (split_newline doc). create_match (strip l) = None"
  shows "extract_table_definitions doc = Inr [] \<and> validate_dependencies [] = Inr [] \<and>
         check_document doc = Inr []"
proof -
  from extract_loop_no_declaration [OF assms]
  have e: "extract_table_definitions doc = Inr []"
    by (simp add: extract_table_definitions_def)
  have v: "validate_dependencies [] = Inr []"
    by (simp add: validate_dependencies_def validate_run_def dict_keys_def)
  from e v show ?thesis by (simp add: check_document_def)
qed

theorem no_declaration_no_violation_witness:
  "extract_table_definitions plain_document = Inr [] \<and> validate_dependencies [] = Inr [] \<and>
   check_document plain_document = Inr []"
proof -
  have "\<forall>l\<in>set (split_newline plain_document). create_match (strip l) = None" by code_simp
  then show ?thesis by (rule no_declaration_no_violation)
qed

subsection \<open>The validator only reads the dictionary\<close>

text \<open>
  C9. \<^verbatim>\<open>validate_dependencies\<close> completes on every dictionary, returns the list of
  violations it collected, and leaves the dictionary as it was: no entry is added, removed
  or changed.
\<close>

theorem validate_leaves_tables_unchanged:
  "\<exists>st. validate_run tbls = Inr st \<and> tables st = tbls \<and>
        validate_dependencies tbls = Inr (errors st)"
  by (simp add: validate_run_lookup validate_dependencies_def)

theorem validate_leaves_tables_unchanged_witness:
  "\<exists>st. validate_run forward_tables = Inr st \<and> tables st = forward_tables \<and>
        validate_dependencies forward_tables = Inr (errors st)"
  by (rule validate_leaves_tables_unchanged)

subsection \<open>Dependency lines before the first declaration\<close>

text \<open>
  C10. Let the lines of the document be \<open>pre\<close> followed by \<open>rest\<close>, with no
  declaration line in \<open>pre\<close> (the lines before the first declaration, or fewer). The scan
  of \<open>pre\<close> leaves the empty dictionary and no current table, whatever dependency lines
  \<open>pre\<close> holds, so the result of extract is that of scanning \<open>rest\<close> alone from the
  initial state. Every dependency of every entry, and the target of every violation, is named
  by a dependency line of \<open>rest\<close>.
\<close>

theorem early_references_discarded:
  assumes "split_newline doc = pre @ rest"
    and "\<forall>l\<in>set pre. create_match (strip l) = None"
  shows "extract_loop (split_newline doc) pre ([], None) = Inr ([], None) \<and>
         extract_table_definitions doc =
           (case extract_loop (split_newline doc) rest ([], None) of
              Inl e \<Rightarrow> Inl e
            | Inr st \<Rightarrow> Inr (fst st)) \<and>
         (\<forall>tbls d info r.
            extract_table_definitions doc = Inr tbls \<longrightarrow> dict_get tbls d = Some info \<longrightarrow>
            r \<in> set (dependencies info) \<longrightarrow>
            (\<exists>l\<in>set rest. fk_match (strip l) = Some r)) \<and>
         (\<forall>tbls vs v r.
            extract_table_definitions doc = Inr tbls \<longrightarrow> validate_dependencies tbls = Inr vs \<longrightarrow>
            v \<in> set vs \<longrightarrow> target v = Some r \<longrightarrow>
            (\<exists>l\<in>set rest. fk_match (strip l) = Some r))"
proof -
  have pre: "extract_loop (split_newline doc) pre ([], None) = Inr ([], None)"
    using assms(2) by (rule extract_loop_no_declaration)
  have ext: "extract_table_definitions doc =
           (case extract_loop (split_newline doc) rest ([], None) of
              Inl e \<Rightarrow> Inl e
            | Inr st \<Rightarrow> Inr (fst st))"
    unfolding extract_table_definitions_def Let_def
    by (subst (2) assms(1)) (simp add: extract_loop_append pre)
  have deps: "\<exists>l\<in>set rest. fk_match (strip l) = Some r"
    if "extract_table_definitions doc = Inr tbls" "dict_get tbls d = Some info"
       "r \<in> set (dependencies info)" for tbls d info r
  proof -
    from extract_dependencies [OF that(1,2)] obtain s where
      s: "last_span d (split_newline doc) = Some s" "dependencies info = span_dependencies d s"
      by blast
    from s(1) have "last_span d rest = Some s"
      unfolding assms(1) last_span_skip [OF assms(2)] .
    then have "set s \<subseteq> set rest" by (rule last_span_subset)
    moreover from that(3) s(2) obtain l where "l \<in> set s" "fk_match (strip l) = Some r"
      using span_dependencies_line [of r d s] by auto
    ultimately show ?thesis by blast
  qed
  have vio: "\<exists>l\<in>set rest. fk_match (strip l) = Some r"
    if "extract_table_definitions doc = Inr tbls" "validate_dependencies tbls = Inr vs"
       "v \<in> set vs" "target v = Some r" for tbls vs v r
  proof -
    have dist: "distinct (dict_keys tbls)" using that(1) by (rule extract_distinct)
    with that(2,3) have "v \<in> set (expected_violations tbls)"
      by (simp add: validate_dependencies_expected)
    from expected_violations_entry [OF dist this] that(4) obtain d info where
      "dict_get tbls d = Some info" "r \<in> set (dependencies info)" by auto
    with that(1) show ?thesis by (rule deps)
  qed
  from pre ext deps vio show ?thesis by blast
qed

theorem early_references_discarded_witness:
  "extract_loop (split_newline early_document) [''FOREIGN KEY (x) REFERENCES ghosts(id)'']
     ([], None) = Inr ([], None) \<and>
   extract_table_definitions early_document =
     (case extract_loop (split_newline early_document)
             [''CREATE TABLE IF NOT EXISTS items ('',
              ''FOREIGN KEY (shop_id) REFERENCES shops(id)'', '');''] ([], None) of
        Inl e \<Rightarrow> Inl e
      | Inr st \<Rightarrow> Inr (fst st)) \<and>
   extract_table_definitions early_document =
     Inr [(''items'', \<lparr>dependencies = [''shops''], line_num = 1\<rparr>)] \<and>
   fk_match (strip ''FOREIGN KEY (x) REFERENCES ghosts(id)'') = Some ''ghosts''"
proof -
  have s: "split_newline early_document =
           [''FOREIGN KEY (x) REFERENCES ghosts(id)''] @
           [''CREATE TABLE IF NOT EXISTS items ('',
            ''FOREIGN KEY (shop_id) REFERENCES shops(id)'', '');'']"
    by code_simp
  have p: "\<forall>l\<in>set [''FOREIGN KEY (x) REFERENCES ghosts(id)'']. create_match (strip l) = None"
    by code_simp
  have e: "extract_table_definitions early_document =
           Inr [(''items'', \<lparr>dependencies = [''shops''], line_num = 1\<rparr>)]"
    by code_simp
  have f: "fk_match (strip ''FOREIGN KEY (x) REFERENCES ghosts(id)'') = Some ''ghosts''"
    by code_simp
  from early_references_discarded [OF s p] e f show ?thesis by blast
qed

end
